theory Spec2Isabelle
  imports Complex_Main "HOL-Library.Multiset"
begin

section \<open>Values\<close>

text \<open>
  The value of the \<open>groupBy\<close> expression on a document. The stage declares its bucket
  boundaries as \<open>{ min: number, max: number }\<close>, and a key may be nil (\<open>null\<close>, or
  \<open>undefined\<close> for a missing field): keys are numbers or nil. Numbers are the rationals here.
\<close>

datatype keyval = Undefined | Null | Num rat

fun isNil :: "keyval \<Rightarrow> bool" where
  "isNil Undefined = True"
| "isNil Null = True"
| "isNil (Num n) = False"

text \<open>
  The \<open>buckets\<close> field of the stage's spec, as the number the comparison
  \<open>bucketCount > 0\<close> sees: \<open>NaN\<close> (also what a missing field compares as), or a
  finite number.
\<close>

datatype jsnum = NaN | Fin rat

fun gt0 :: "jsnum \<Rightarrow> bool" where
  "gt0 NaN = False"
| "gt0 (Fin r) = (0 < r)"

datatype error = AssertionError | TypeError

section \<open>The stage's spec and its output\<close>

text \<open>
  \<open>groupBy\<close> stands for \<open>computeValue(o, groupByExpr)\<close> (memoized in the source, with the
  same value), \<open>output\<close> for \<open>computeValue(bucketItems, outputExpr)\<close> when the spec has an
  \<open>output\<close> field (\<open>outputAcc\<close>): the accumulated fields of a bucket.
\<close>

record 'd expr =
  groupBy :: "'d \<Rightarrow> keyval"
  buckets :: jsnum
  outputAcc :: "('d list \<Rightarrow> (string \<times> int) list) option"

text \<open>
  \<open>Object.create({ min: 0, max: 0 })\<close>: \<open>min\<close> and \<open>max\<close> are inherited from the
  prototype until they are assigned. A field holds the own property, \<open>None\<close> while
  there is none; \<open>has\<close> tests the own property and a read falls back to the prototype.
\<close>

record boundaries =
  bmin :: "keyval option"
  bmax :: "keyval option"

definition has_min :: "boundaries \<Rightarrow> bool" where
  "has_min b = (bmin b \<noteq> None)"

definition get_min :: "boundaries \<Rightarrow> keyval" where
  "get_min b = (case bmin b of Some k \<Rightarrow> k | None \<Rightarrow> Num 0)"

text \<open>
  An emitted bucket: its \<open>_id\<close>, the accumulated fields, and the documents the
  accumulators ran over (\<open>bucketItems\<close> in the source).
\<close>

record 'd bucket =
  bid :: boundaries
  items_of :: "'d list"
  accumulated :: "(string \<times> int) list"

definition set_max :: "'d bucket \<Rightarrow> keyval \<Rightarrow> 'd bucket" where
  "set_max b k = b\<lparr>bid := (bid b)\<lparr>bmax := Some k\<rparr>\<rparr>"

text \<open>The default output \<open>{ count: { $sum: 1 } }\<close>.\<close>

definition count_sum :: "'d list \<Rightarrow> (string \<times> int) list" where
  "count_sum ds = [(''count'', int (length ds))]"

section \<open>Sorting with the key callback\<close>

text \<open>
  \<open>grouped\<close> is the object whose property \<open>key\<close> holds the documents of that key; a
  number's property name determines the number, so the map is keyed by the number.
  The callback given to \<open>sortBy\<close> files the document under its key, or in
  \<open>remaining\<close> when the key is nil, and returns the key.
\<close>

type_synonym 'd groups = "rat \<rightharpoonup> 'd list"

definition keyCallback ::
  "('d \<Rightarrow> keyval) \<Rightarrow> 'd \<Rightarrow> 'd groups \<times> 'd list \<Rightarrow> keyval \<times> ('d groups \<times> 'd list)" where
  "keyCallback groupByExpr d s =
     (case s of (grouped, remaining) \<Rightarrow>
        (case groupByExpr d of
           Num n \<Rightarrow>
             (Num n, (grouped(n \<mapsto> (case grouped n of None \<Rightarrow> [] | Some g \<Rightarrow> g) @ [d]), remaining))
         | key \<Rightarrow> (key, (grouped, remaining @ [d]))))"

text \<open>
  Modelled from the spec: \<open>sortBy\<close> (of the utilities, not among the sources). It
  sorts the collection on the key its callback returns, ascending and stable, the
  documents with a nil key first. The stage fills \<open>grouped\<close> and \<open>remaining\<close> from
  inside the callback, so it relies on the callback running once on each document; here
  it runs in the collection's order.
\<close>

fun call_each :: "('d \<Rightarrow> 's \<Rightarrow> keyval \<times> 's) \<Rightarrow> 'd list \<Rightarrow> 's \<Rightarrow> ('d \<times> keyval) list \<times> 's" where
  "call_each fn [] s = ([], s)"
| "call_each fn (d # ds) s =
     (case fn d s of (k, s1) \<Rightarrow>
        (case call_each fn ds s1 of (ps, s2) \<Rightarrow> ((d, k) # ps, s2)))"

fun num_of :: "keyval \<Rightarrow> rat" where
  "num_of (Num n) = n"
| "num_of Undefined = 0"
| "num_of Null = 0"

definition sortBy :: "'d list \<Rightarrow> ('d \<Rightarrow> 's \<Rightarrow> keyval \<times> 's) \<Rightarrow> 's \<Rightarrow> 'd list \<times> 's" where
  "sortBy collection fn s =
     (case call_each fn collection s of (ps, s') \<Rightarrow>
        (map fst (filter (\<lambda>p. isNil (snd p)) ps)
           @ map fst (sort_key (\<lambda>p. num_of (snd p)) (filter (\<lambda>p. \<not> isNil (snd p)) ps)), s'))"

section \<open>The bucket loops\<close>

text \<open>\<open>Math.max(1, Math.round(coll.length / bucketCount))\<close>; \<open>Math.round\<close> rounds half up.\<close>

definition approxBucketSize :: "nat \<Rightarrow> rat \<Rightarrow> nat" where
  "approxBucketSize len bucketCount = max 1 (nat \<lfloor>of_nat len / bucketCount + 1 / 2\<rfloor>)"

text \<open>
  The inner loop over \<open>j\<close>. Its state is the items of the bucket being filled, the index
  into the sorted collection (\<open>sortedDocs\<close>), the bucket's boundaries and the result so
  far, whose last bucket gets its \<open>max\<close>. For a key that \<open>grouped\<close> does not hold, the
  step would read \<open>grouped[key].length\<close> of \<open>undefined\<close>: a TypeError.
\<close>

function inner ::
  "('d \<Rightarrow> keyval) \<Rightarrow> 'd list \<Rightarrow> 'd groups \<Rightarrow> 'd list \<Rightarrow> nat \<Rightarrow> nat
     \<Rightarrow> 'd list \<times> nat \<times> boundaries \<times> 'd bucket list
     \<Rightarrow> error + ('d list \<times> nat \<times> boundaries \<times> 'd bucket list)" where
  "inner groupByExpr sortedDocs grouped remaining approx j (bucketItems, index, bnd, result) =
     (if j < approx \<and> index < length sortedDocs then
        (let key0 = groupByExpr (sortedDocs ! index);
             key = (if isNil key0 then Null else key0)
         in case (case key of Num n \<Rightarrow> grouped n | _ \<Rightarrow> Some remaining) of
              None \<Rightarrow> Inl TypeError
            | Some g \<Rightarrow>
                (let bnd' = (if \<not> has_min bnd then bnd\<lparr>bmin := Some key\<rparr> else bnd);
                     result' = (if result \<noteq> []
                                then butlast result @ [set_max (last result) (get_min bnd')]
                                else result)
                 in inner groupByExpr sortedDocs grouped remaining approx (Suc j)
                      (bucketItems @ g, index + length g, bnd', result')))
      else Inr (bucketItems, index, bnd, result))"
  by pat_completeness auto
termination
  by (relation "measure (\<lambda>(k, s, g, r, approx, j, st). approx - j)") auto

declare inner.simps [simp del]

text \<open>
  The outer loop over \<open>i\<close>: one bucket each time round, while \<open>i < bucketCount\<close> and
  documents are left. The bucket with \<open>i == bucketCount - 1\<close> also takes
  \<open>sorted.slice(index)\<close>.
\<close>

function outer ::
  "('d \<Rightarrow> keyval) \<Rightarrow> ('d list \<Rightarrow> (string \<times> int) list) \<Rightarrow> 'd list \<Rightarrow> 'd groups \<Rightarrow> 'd list
     \<Rightarrow> nat \<Rightarrow> rat \<Rightarrow> nat \<Rightarrow> nat \<Rightarrow> 'd bucket list \<Rightarrow> error + 'd bucket list" where
  "outer groupByExpr outputExpr sortedDocs grouped remaining approx bucketCount i index result =
     (if of_nat i < bucketCount \<and> index < length sortedDocs then
        (case inner groupByExpr sortedDocs grouped remaining approx 0
                ([], index, \<lparr>bmin = None, bmax = None\<rparr>, result) of
           Inl e \<Rightarrow> Inl e
         | Inr (bucketItems, index', bnd, result') \<Rightarrow>
             (let bucketItems' = (if of_nat i = bucketCount - 1
                                  then bucketItems @ drop index' sortedDocs else bucketItems)
              in outer groupByExpr outputExpr sortedDocs grouped remaining approx bucketCount (Suc i) index'
                   (result' @ [\<lparr>bid = bnd, items_of = bucketItems',
                                accumulated = outputExpr bucketItems'\<rparr>])))
      else Inr result)"
  by pat_completeness auto
termination
proof (relation "measure (\<lambda>(k, out, s, g, r, approx, bc, i, rest). nat \<lceil>bc\<rceil> - i)", goal_cases)
  case 1
  show ?case by simp
next
  case (2 groupByExpr outputExpr sortedDocs grouped remaining approx bucketCount i index result)
  have "rat_of_int (int i) < rat_of_int \<lceil>bucketCount\<rceil>"
    using 2(1) le_of_int_ceiling [of bucketCount] by (auto elim: less_le_trans)
  then have "int i < \<lceil>bucketCount\<rceil>"
    by (simp only: of_int_less_iff)
  then show ?case by simp
qed

declare outer.simps [simp del]

text \<open>
  What \<open>collection.transform\<close> runs on the whole collection: sort, fill the buckets,
  then give the last bucket the key of the last sorted document as its \<open>max\<close>. A
  non-empty result was filled from a non-empty \<open>sorted\<close>, so that read is in range.
\<close>

definition transform ::
  "('d \<Rightarrow> keyval) \<Rightarrow> ('d list \<Rightarrow> (string \<times> int) list) \<Rightarrow> rat \<Rightarrow> 'd list \<Rightarrow> error + 'd bucket list" where
  "transform groupByExpr outputExpr bucketCount coll =
     (let approx = approxBucketSize (length coll) bucketCount
      in case sortBy coll (keyCallback groupByExpr) (Map.empty, []) of
           (sortedDocs, (grouped, remaining)) \<Rightarrow>
             (case outer groupByExpr outputExpr sortedDocs grouped remaining approx bucketCount 0 0 [] of
                Inl e \<Rightarrow> Inl e
              | Inr result \<Rightarrow>
                  Inr (if result \<noteq> []
                       then butlast result
                              @ [set_max (last result) (groupByExpr (sortedDocs ! (length sortedDocs - 1)))]
                       else result)))"

text \<open>
  The stage: the assertion on \<open>buckets\<close> comes first, when the stage is built; the
  transform is what the first pull runs.
\<close>

definition bucketAuto :: "'d list \<Rightarrow> 'd expr \<Rightarrow> error + 'd bucket list" where
  "bucketAuto collection e =
     (let outputExpr = (case outputAcc e of Some f \<Rightarrow> f | None \<Rightarrow> count_sum);
          groupByExpr = groupBy e
      in case buckets e of
           NaN \<Rightarrow> Inl AssertionError
         | Fin bucketCount \<Rightarrow>
             if \<not> gt0 (Fin bucketCount) then Inl AssertionError
             else transform groupByExpr outputExpr bucketCount collection)"

section \<open>What the loops compute\<close>

text \<open>
  The key a document is grouped under: its \<open>groupBy\<close> value, with \<open>null\<close> for every
  nil value. \<open>keyGroup\<close> is the documents of one such key in the collection's order,
  \<open>groupedOf\<close> and \<open>sortedOf\<close> what the callback and \<open>sortBy\<close> leave behind, and
  \<open>keyClasses\<close> the distinct keys of the collection in ascending order, nil first.
\<close>

definition keyClass :: "('d \<Rightarrow> keyval) \<Rightarrow> 'd \<Rightarrow> keyval" where
  "keyClass key d = (if isNil (key d) then Null else key d)"

definition keyGroup :: "('d \<Rightarrow> keyval) \<Rightarrow> 'd list \<Rightarrow> keyval \<Rightarrow> 'd list" where
  "keyGroup key coll k = filter (\<lambda>d. keyClass key d = k) coll"

definition groupedOf :: "('d \<Rightarrow> keyval) \<Rightarrow> 'd list \<Rightarrow> 'd groups" where
  "groupedOf key coll =
     (\<lambda>n. if filter (\<lambda>d. key d = Num n) coll = [] then None
          else Some (filter (\<lambda>d. key d = Num n) coll))"

definition sortedOf :: "('d \<Rightarrow> keyval) \<Rightarrow> 'd list \<Rightarrow> 'd list" where
  "sortedOf key coll =
     filter (\<lambda>d. isNil (key d)) coll
       @ sort_key (\<lambda>d. num_of (key d)) (filter (\<lambda>d. \<not> isNil (key d)) coll)"

definition keyClasses :: "('d \<Rightarrow> keyval) \<Rightarrow> 'd list \<Rightarrow> keyval list" where
  "keyClasses key coll =
     (if filter (\<lambda>d. isNil (key d)) coll = [] then [] else [Null])
       @ map Num (sort (remdups (map (\<lambda>d. num_of (key d)) (filter (\<lambda>d. \<not> isNil (key d)) coll))))"

text \<open>
  The keys of each bucket: \<open>approx\<close> keys for every turn of the outer loop, and all the
  keys that are left for the turn with \<open>i = bucketCount - 1\<close>.
\<close>

function keyChunks :: "nat \<Rightarrow> rat \<Rightarrow> nat \<Rightarrow> 'k list \<Rightarrow> 'k list list" where
  "keyChunks approx bucketCount i ks =
     (if of_nat i < bucketCount \<and> ks \<noteq> [] then
        (if of_nat i = bucketCount - 1 then ks else take approx ks)
          # keyChunks approx bucketCount (Suc i) (drop approx ks)
      else [])"
  by pat_completeness auto
termination
proof (relation "measure (\<lambda>(approx, bc, i, ks). nat \<lceil>bc\<rceil> - i)", goal_cases)
  case 1
  show ?case by simp
next
  case (2 approx bucketCount i ks)
  have "rat_of_int (int i) < rat_of_int \<lceil>bucketCount\<rceil>"
    using 2 le_of_int_ceiling [of bucketCount] by (auto elim: less_le_trans)
  then have "int i < \<lceil>bucketCount\<rceil>"
    by (simp only: of_int_less_iff)
  then show ?case by simp
qed

declare keyChunks.simps [simp del]

text \<open>
  The buckets for a list of key chunks, as the outer loop leaves them: \<open>min\<close> is the
  first key of the chunk, \<open>max\<close> the first key of the next chunk, and the last bucket
  has no \<open>max\<close> of its own yet.
\<close>

definition bucketFor ::
  "('k \<Rightarrow> 'd list) \<Rightarrow> ('d list \<Rightarrow> (string \<times> int) list) \<Rightarrow> keyval \<Rightarrow> keyval option \<Rightarrow> 'k list \<Rightarrow> 'd bucket" where
  "bucketFor G out mn mx c =
     \<lparr>bid = \<lparr>bmin = Some mn, bmax = mx\<rparr>, items_of = concat (map G c),
      accumulated = out (concat (map G c))\<rparr>"

fun bucketsFor ::
  "(keyval \<Rightarrow> 'd list) \<Rightarrow> ('d list \<Rightarrow> (string \<times> int) list) \<Rightarrow> keyval list list \<Rightarrow> 'd bucket list" where
  "bucketsFor G out [] = []"
| "bucketsFor G out [c] = [bucketFor G out (hd c) None c]"
| "bucketsFor G out (c # c' # cs) =
     bucketFor G out (hd c) (Some (hd c')) c # bucketsFor G out (c' # cs)"

text \<open>
  The loops keep the index at the start of a key group: from \<open>index\<close> on, the sorted
  collection is the groups of the keys \<open>ks\<close> one after the other, each as \<open>grouped\<close>
  (or \<open>remaining\<close>) holds it.
\<close>

definition aligned ::
  "('d \<Rightarrow> keyval) \<Rightarrow> 'd list \<Rightarrow> 'd groups \<Rightarrow> 'd list \<Rightarrow> (keyval \<Rightarrow> 'd list) \<Rightarrow> nat \<Rightarrow> keyval list \<Rightarrow> bool" where
  "aligned key sortedDocs grouped remaining G index ks \<longleftrightarrow>
     drop index sortedDocs = concat (map G ks) \<and>
     (\<forall>k\<in>set ks. G k \<noteq> [] \<and> (\<forall>d\<in>set (G k). keyClass key d = k) \<and>
        (case k of Num n \<Rightarrow> grouped n | _ \<Rightarrow> Some remaining) = Some (G k))"

text \<open>The last step of the transform: the last bucket gets its \<open>max\<close>.\<close>

definition closeLast :: "'d bucket list \<Rightarrow> keyval \<Rightarrow> 'd bucket list" where
  "closeLast result k = (if result \<noteq> [] then butlast result @ [set_max (last result) k] else result)"

text \<open>The order of the keys: a nil key is below every number, numbers by value.\<close>

fun keyLe :: "keyval \<Rightarrow> keyval \<Rightarrow> bool" where
  "keyLe (Num m) (Num n) = (m \<le> n)"
| "keyLe (Num m) Undefined = False"
| "keyLe (Num m) Null = False"
| "keyLe Undefined k = True"
| "keyLe Null k = True"


text \<open>
  At most \<open>n\<close> chunks of a list: \<open>approx\<close> elements each, the \<open>n\<close>-th chunk taking all
  that is left.
\<close>

fun chunkRuns :: "nat \<Rightarrow> nat \<Rightarrow> 'a list \<Rightarrow> 'a list list" where
  "chunkRuns approx 0 xs = []"
| "chunkRuns approx (Suc n) xs =
     (if xs = [] then []
      else if n = 0 then [xs]
      else take approx xs # chunkRuns approx n (drop approx xs))"




section \<open>Documents and example collections\<close>

text \<open>
  Modelled from the spec: a document as its fields in insertion order, and the value of
  the expression \<open>"$name"\<close> on it (\<open>computeValue\<close> is not among the sources): the
  field's value, or \<open>undefined\<close> (Missing) when the document has no such field.
\<close>

type_synonym doc = "(string \<times> keyval) list"

definition fieldRef :: "string \<Rightarrow> doc \<Rightarrow> keyval" where
  "fieldRef name d = (case map_of d name of Some v \<Rightarrow> v | None \<Rightarrow> Undefined)"

text \<open>The \<open>count\<close> field of a bucket's output.\<close>

definition countOf :: "'d bucket \<Rightarrow> int" where
  "countOf b = (case map_of (accumulated b) ''count'' of Some c \<Rightarrow> c | None \<Rightarrow> 0)"

text \<open>The documents \<open>{_id: 1}\<close> to \<open>{_id: n}\<close>, and the spec
  \<open>{groupBy: "$_id", buckets: n}\<close>.\<close>

definition idDocs :: "int \<Rightarrow> doc list" where
  "idDocs n = map (\<lambda>i. [(''_id'', Num (of_int i))]) [1..n]"

definition idSpec :: "rat \<Rightarrow> doc expr" where
  "idSpec n = \<lparr>groupBy = fieldRef ''_id'', buckets = Fin n, outputAcc = None\<rparr>"

text \<open>Four documents, the first two with a nil key: \<open>{_id: 1, k: null}\<close>, \<open>{_id: 2}\<close>,
  \<open>{_id: 3, k: 7}\<close>, \<open>{_id: 4, k: 9}\<close>; and the spec \<open>{groupBy: "$k", buckets: 2}\<close>.\<close>

definition nilDocs :: "doc list" where
  "nilDocs = [[(''_id'', Num 1), (''k'', Null)], [(''_id'', Num 2)],
              [(''_id'', Num 3), (''k'', Num 7)], [(''_id'', Num 4), (''k'', Num 9)]]"

definition nilSpec :: "doc expr" where
  "nilSpec = \<lparr>groupBy = fieldRef ''k'', buckets = Fin 2, outputAcc = None\<rparr>"

section \<open>The sort stage\<close>

text \<open>
  Modelled from the spec: the \<open>$sort\<close> stage, whose implementation is not among the
  sources (its tests are). The spec has it as a blocking stage that sorts stably by the
  compound key, each field with its direction, strings compared by the collation. A sort
  spec is the list of its fields: the field's value on a document and the direction
  (\<open>True\<close> for 1, \<open>False\<close> for -1). A collation is its comparison, "\<open>a\<close> is not after
  \<open>b\<close>"; two values that are not after each other are equal for it.
\<close>

type_synonym ('d, 'k) sortSpec = "(('d \<Rightarrow> 'k) \<times> bool) list"

fun docLe :: "('k \<Rightarrow> 'k \<Rightarrow> bool) \<Rightarrow> ('d, 'k) sortSpec \<Rightarrow> 'd \<Rightarrow> 'd \<Rightarrow> bool" where
  "docLe le [] a b = True"
| "docLe le ((f, asc) # fs) a b =
     (if le (f a) (f b) \<and> le (f b) (f a) then docLe le fs a b
      else if asc then le (f a) (f b) else le (f b) (f a))"

fun insertDoc :: "('d \<Rightarrow> 'd \<Rightarrow> bool) \<Rightarrow> 'd \<Rightarrow> 'd list \<Rightarrow> 'd list" where
  "insertDoc le d [] = [d]"
| "insertDoc le d (x # xs) = (if le d x then d # x # xs else x # insertDoc le d xs)"

definition sort_stage :: "('k \<Rightarrow> 'k \<Rightarrow> bool) \<Rightarrow> ('d, 'k) sortSpec \<Rightarrow> 'd list \<Rightarrow> 'd list" where
  "sort_stage le spec coll = foldr (insertDoc (docLe le spec)) coll []"

text \<open>
  Modelled from the spec: a collation of strength 1 compares base letters only, so that
  strings that differ in case are equal for it. Here on ASCII: a capital letter counts
  as its small letter, and strings compare letter by letter.
\<close>

definition baseLetter :: "char \<Rightarrow> nat" where
  "baseLetter c = (let n = of_char c in if 65 \<le> n \<and> n \<le> 90 then n + 32 else n)"

fun lexLe :: "nat list \<Rightarrow> nat list \<Rightarrow> bool" where
  "lexLe [] ys = True"
| "lexLe (x # xs) [] = False"
| "lexLe (x # xs) (y # ys) = (x < y \<or> (x = y \<and> lexLe xs ys))"

definition strength1 :: "string \<Rightarrow> string \<Rightarrow> bool" where
  "strength1 a b = lexLe (map baseLetter a) (map baseLetter b)"

text \<open>
  The documents and the spec \<open>{name: 1}\<close> of the test "can sort with collation", a
  document as the pair of its \<open>_id\<close> and its \<open>name\<close>; and those of the spec's second
  scenario.
\<close>

definition nameDocs :: "(int \<times> string) list" where
  "nameDocs = [(1, ''A''), (2, ''B''), (3, ''c''), (4, ''a'')]"

definition caseDocs :: "(int \<times> string) list" where
  "caseDocs = [(1, ''A''), (2, ''a''), (3, ''B''), (4, ''b'')]"

definition nameSpec :: "(int \<times> string, string) sortSpec" where
  "nameSpec = [(snd, True)]"

section \<open>The callback and the sort\<close>

lemma call_each_keyCallback:
  "call_each (keyCallback key) ds (g, r) =
     (map (\<lambda>d. (d, key d)) ds,
      ((\<lambda>n. if filter (\<lambda>d. key d = Num n) ds = [] then g n
            else Some ((case g n of None \<Rightarrow> [] | Some x \<Rightarrow> x) @ filter (\<lambda>d. key d = Num n) ds)),
       r @ filter (\<lambda>d. isNil (key d)) ds))"
proof (induction ds arbitrary: g r)
  case Nil
  show ?case by simp
next
  case (Cons d ds)
  show ?case
  proof (cases "key d")
    case (Num m)
    have step: "keyCallback key d (g, r)
        = (Num m, (g(m \<mapsto> (case g m of None \<Rightarrow> [] | Some x \<Rightarrow> x) @ [d]), r))"
      by (simp add: keyCallback_def Num)
    show ?thesis
      by (auto simp: step Cons.IH Num fun_eq_iff)
  next
    case Undefined
    have step: "keyCallback key d (g, r) = (Undefined, (g, r @ [d]))"
      by (simp add: keyCallback_def Undefined)
    show ?thesis
      by (auto simp: step Cons.IH Undefined fun_eq_iff)
  next
    case Null
    have step: "keyCallback key d (g, r) = (Null, (g, r @ [d]))"
      by (simp add: keyCallback_def Null)
    show ?thesis
      by (auto simp: step Cons.IH Null fun_eq_iff)
  qed
qed

lemma insort_key_pairs':
  "insort_key (\<lambda>p. h (snd p)) (d, key d) (map (\<lambda>d. (d, key d)) xs)
     = map (\<lambda>d. (d, key d)) (insort_key (\<lambda>d. h (key d)) d xs)"
  by (induction xs) simp_all

lemma sort_key_pairs:
  "sort_key (\<lambda>p. h (snd p)) (map (\<lambda>d. (d, key d)) xs) = map (\<lambda>d. (d, key d)) (sort_key (\<lambda>d. h (key d)) xs)"
  by (induction xs) (simp_all add: insort_key_pairs')

lemma sortBy_keyCallback:
  "sortBy coll (keyCallback key) (Map.empty, []) =
     (sortedOf key coll, (groupedOf key coll, filter (\<lambda>d. isNil (key d)) coll))"
  by (auto simp: sortBy_def call_each_keyCallback sortedOf_def groupedOf_def filter_map o_def
                sort_key_pairs fun_eq_iff)

section \<open>The sorted collection as key groups\<close>

lemma filter_group_group:
  "filter (\<lambda>d. f d = c) (filter (\<lambda>d. f d = k) ys) = (if k = c then filter (\<lambda>d. f d = c) ys else [])"
  by (induction ys) auto

lemma filter_concat_groups:
  "distinct ks \<Longrightarrow>
   filter (\<lambda>d. f d = c) (concat (map (\<lambda>n. filter (\<lambda>d. f d = n) ys) ks))
     = (if c \<in> set ks then filter (\<lambda>d. f d = c) ys else [])"
  by (induction ks) (auto simp: filter_group_group simp del: filter_filter)

lemma mset_concat_groups:
  "distinct ks \<Longrightarrow>
   mset (concat (map (\<lambda>n. filter (\<lambda>d. f d = n) ys) ks)) = mset (filter (\<lambda>d. f d \<in> set ks) ys)"
proof (induction ks)
  case Nil
  show ?case by simp
next
  case (Cons k ks)
  have "mset (filter (\<lambda>d. f d = k) ys) + mset (filter (\<lambda>d. f d \<in> set ks) ys)
          = mset (filter (\<lambda>d. f d = k \<or> f d \<in> set ks) ys)"
    using Cons.prems by (induction ys) auto
  with Cons show ?case by simp
qed

lemma sorted_group: "sorted (map f (filter (\<lambda>d. f d = k) ys))"
  by (induction ys) auto

lemma sorted_concat_groups:
  "sorted ks \<Longrightarrow> sorted (map f (concat (map (\<lambda>n. filter (\<lambda>d. f d = n) ys) ks)))"
proof (induction ks)
  case Nil
  show ?case by simp
next
  case (Cons k ks)
  then show ?case
    by (auto simp: sorted_append sorted_group)
qed

lemma sort_key_groups:
  fixes f :: "'a \<Rightarrow> 'b::linorder"
  shows "sort_key f ys = concat (map (\<lambda>n. filter (\<lambda>d. f d = n) ys) (sort (remdups (map f ys))))"
proof (rule properties_for_sort_key)
  let ?ks = "sort (remdups (map f ys))"
  have d: "distinct ?ks" by simp
  have s: "set ?ks = f ` set ys" by simp
  show "mset (concat (map (\<lambda>n. filter (\<lambda>d. f d = n) ys) ?ks)) = mset ys"
    by (simp only: mset_concat_groups [OF d] s) simp
  show "sorted (map f (concat (map (\<lambda>n. filter (\<lambda>d. f d = n) ys) ?ks)))"
    by (rule sorted_concat_groups) simp
  fix k
  assume "k \<in> set (concat (map (\<lambda>n. filter (\<lambda>d. f d = n) ys) ?ks))"
  then have "k \<in> set ys" by auto
  then have "f k \<in> set ?ks" by simp
  have "filter (\<lambda>x. f x = f k) (concat (map (\<lambda>n. filter (\<lambda>d. f d = n) ys) ?ks))
          = filter (\<lambda>x. f x = f k) ys"
    using \<open>f k \<in> set ?ks\<close> by (simp only: filter_concat_groups [OF d] if_True)
  then show "filter (\<lambda>x. f k = f x) (concat (map (\<lambda>n. filter (\<lambda>d. f d = n) ys) ?ks))
          = filter (\<lambda>x. f k = f x) ys"
    by (simp add: eq_commute)
qed

lemma keyClass_Null: "keyClass key d = Null \<longleftrightarrow> isNil (key d)"
  by (cases "key d") (simp_all add: keyClass_def)

lemma keyClass_Num: "keyClass key d = Num n \<longleftrightarrow> key d = Num n"
  by (cases "key d") (simp_all add: keyClass_def)

lemma keyClass_not_Undefined: "keyClass key d \<noteq> Undefined"
  by (cases "key d") (simp_all add: keyClass_def)

lemma keyGroup_Null: "keyGroup key coll Null = filter (\<lambda>d. isNil (key d)) coll"
  by (simp add: keyGroup_def keyClass_Null)

lemma keyGroup_Num: "keyGroup key coll (Num n) = filter (\<lambda>d. key d = Num n) coll"
  by (simp add: keyGroup_def keyClass_Num)

lemma keyGroup_Num_filter:
  "filter (\<lambda>d. num_of (key d) = n) (filter (\<lambda>d. \<not> isNil (key d)) coll) = keyGroup key coll (Num n)"
proof -
  have "(\<not> isNil (key d) \<and> num_of (key d) = n) \<longleftrightarrow> key d = Num n" for d
    by (cases "key d") auto
  then show ?thesis
    by (simp add: keyGroup_Num conj_commute)
qed

lemma sortedOf_groups:
  "sortedOf key coll = concat (map (keyGroup key coll) (keyClasses key coll))"
proof -
  let ?ys = "filter (\<lambda>d. \<not> isNil (key d)) coll"
  have "sort_key (\<lambda>d. num_of (key d)) ?ys
          = concat (map (\<lambda>n. keyGroup key coll (Num n)) (sort (remdups (map (\<lambda>d. num_of (key d)) ?ys))))"
    by (subst sort_key_groups) (simp only: keyGroup_Num_filter)
  then show ?thesis
    by (simp add: sortedOf_def keyClasses_def keyGroup_Null o_def)
qed

lemma distinct_keyClasses: "distinct (keyClasses key coll)"
  by (auto simp: keyClasses_def distinct_map inj_on_def)

lemma keyClasses_group:
  assumes "k \<in> set (keyClasses key coll)"
  shows "keyGroup key coll k \<noteq> []"
    and "(case k of Num n \<Rightarrow> groupedOf key coll n | _ \<Rightarrow> Some (filter (\<lambda>d. isNil (key d)) coll))
           = Some (keyGroup key coll k)"
proof -
  show "keyGroup key coll k \<noteq> []"
  proof (cases k)
    case Undefined
    with assms show ?thesis by (auto simp: keyClasses_def split: if_splits)
  next
    case Null
    with assms show ?thesis by (auto simp: keyClasses_def keyGroup_Null split: if_splits)
  next
    case (Num n)
    with assms obtain d where "d \<in> set coll" "\<not> isNil (key d)" "num_of (key d) = n"
      by (auto simp: keyClasses_def split: if_splits)
    then have "key d = Num n" by (cases "key d") auto
    with \<open>d \<in> set coll\<close> show ?thesis
      by (auto simp: Num keyGroup_Num filter_empty_conv)
  qed
  then show "(case k of Num n \<Rightarrow> groupedOf key coll n | _ \<Rightarrow> Some (filter (\<lambda>d. isNil (key d)) coll))
           = Some (keyGroup key coll k)"
    using assms
    by (cases k) (auto simp: keyGroup_Null keyGroup_Num groupedOf_def keyClasses_def split: if_splits)
qed

lemma keyGroup_class: "d \<in> set (keyGroup key coll k) \<Longrightarrow> keyClass key d = k"
  by (simp add: keyGroup_def)

section \<open>The inner loop\<close>

lemma aligned_Nil: "aligned key S gr rm G index [] \<Longrightarrow> \<not> index < length S"
  by (simp add: aligned_def)

lemma aligned_Cons:
  assumes "aligned key S gr rm G index (k # ks)"
  shows "index < length S"
    and "keyClass key (S ! index) = k"
    and "(case k of Num n \<Rightarrow> gr n | _ \<Rightarrow> Some rm) = Some (G k)"
    and "aligned key S gr rm G (index + length (G k)) ks"
    and "G k \<noteq> []"
proof -
  from assms have d: "drop index S = G k @ concat (map G ks)"
    and g: "G k \<noteq> []" and c: "\<forall>d\<in>set (G k). keyClass key d = k"
    and rest: "\<forall>k\<in>set ks. G k \<noteq> [] \<and> (\<forall>d\<in>set (G k). keyClass key d = k) \<and>
        (case k of Num n \<Rightarrow> gr n | _ \<Rightarrow> Some rm) = Some (G k)"
    by (simp_all add: aligned_def)
  show "G k \<noteq> []" by (rule g)
  from d g have "drop index S \<noteq> []" by simp
  then show lt: "index < length S" by simp
  from lt have "S ! index = hd (drop index S)" by (simp add: hd_drop_conv_nth)
  also have "\<dots> = hd (G k)" using d g by simp
  finally have "S ! index \<in> set (G k)" using g by simp
  with c show "keyClass key (S ! index) = k" by simp
  from assms show "(case k of Num n \<Rightarrow> gr n | _ \<Rightarrow> Some rm) = Some (G k)"
    by (simp add: aligned_def)
  have "drop (index + length (G k)) S = drop (length (G k)) (drop index S)"
    by (simp add: add.commute)
  also have "\<dots> = concat (map G ks)" by (simp add: d)
  finally show "aligned key S gr rm G (index + length (G k)) ks"
    using rest by (simp add: aligned_def)
qed

lemma set_max_idem: "set_max (set_max b k) k = set_max b k"
  by (simp add: set_max_def)

lemma inner_stable:
  assumes "aligned key S gr rm G index ks" "has_min bnd"
    and "result \<noteq> [] \<Longrightarrow> set_max (last result) (get_min bnd) = last result"
  shows "inner key S gr rm approx j (its, index, bnd, result)
           = Inr (its @ concat (map G (take (approx - j) ks)),
                  index + length (concat (map G (take (approx - j) ks))), bnd, result)"
  using assms(1)
proof (induction ks arbitrary: j its index)
  case Nil
  then show ?case
    by (simp add: inner.simps aligned_Nil)
next
  case (Cons k ks)
  note al = aligned_Cons [OF Cons.prems]
  show ?case
  proof (cases "j < approx")
    case False
    then show ?thesis by (simp add: inner.simps)
  next
    case True
    then have tk: "take (approx - j) (k # ks) = k # take (approx - Suc j) ks"
    proof -
      from True have "approx - j = Suc (approx - Suc j)" by simp
      then show ?thesis by (simp only: take_Suc_Cons)
    qed
    have cls: "(if isNil (key (S ! index)) then Null else key (S ! index)) = k"
      using al(2) by (simp add: keyClass_def)
    have res: "(if result \<noteq> [] then butlast result @ [set_max (last result) (get_min bnd)] else result)
                 = result"
      using assms(3) by simp
    have "inner key S gr rm approx j (its, index, bnd, result)
            = inner key S gr rm approx (Suc j) (its @ G k, index + length (G k), bnd, result)"
      by (subst inner.simps) (simp add: True al(1) cls al(3) assms(2) res Let_def)
    also have "\<dots> = Inr ((its @ G k) @ concat (map G (take (approx - Suc j) ks)),
                  (index + length (G k)) + length (concat (map G (take (approx - Suc j) ks))), bnd, result)"
      by (rule Cons.IH [OF al(4)])
    finally show ?thesis by (simp add: tk)
  qed
qed

lemma inner_first:
  assumes "aligned key S gr rm G index (k # ks)" "0 < approx"
  shows "inner key S gr rm approx 0 ([], index, \<lparr>bmin = None, bmax = None\<rparr>, result)
           = Inr (concat (map G (take approx (k # ks))),
                  index + length (concat (map G (take approx (k # ks)))),
                  \<lparr>bmin = Some k, bmax = None\<rparr>,
                  if result = [] then [] else butlast result @ [set_max (last result) k])"
proof -
  note al = aligned_Cons [OF assms(1)]
  let ?bnd = "\<lparr>bmin = Some k, bmax = None\<rparr>"
  let ?res = "if result = [] then [] else butlast result @ [set_max (last result) k]"
  have tk: "take approx (k # ks) = k # take (approx - Suc 0) ks"
    using assms(2) by (cases approx) simp_all
  have cls: "(if isNil (key (S ! index)) then Null else key (S ! index)) = k"
    using al(2) by (simp add: keyClass_def)
  have "inner key S gr rm approx 0 ([], index, \<lparr>bmin = None, bmax = None\<rparr>, result)
          = inner key S gr rm approx (Suc 0) ([] @ G k, index + length (G k), ?bnd, ?res)"
    by (subst inner.simps) (simp add: assms(2) al(1) cls al(3) has_min_def get_min_def Let_def)
  also have "\<dots> = Inr (([] @ G k) @ concat (map G (take (approx - Suc 0) ks)),
                  (index + length (G k)) + length (concat (map G (take (approx - Suc 0) ks))), ?bnd, ?res)"
    by (rule inner_stable [OF al(4)]) (auto simp: has_min_def get_min_def set_max_idem)
  finally show ?thesis by (simp add: tk)
qed

section \<open>The outer loop\<close>

lemma bucketsFor_Nil_iff: "bucketsFor G out kss = [] \<longleftrightarrow> kss = []"
  by (induction G out kss rule: bucketsFor.induct) simp_all

lemma set_max_bucketFor: "set_max (bucketFor G out m mx c) v = bucketFor G out m (Some v) c"
  by (simp add: set_max_def bucketFor_def)

lemma bucketsFor_snoc:
  "kss \<noteq> [] \<Longrightarrow>
   bucketsFor G out (kss @ [c])
     = butlast (bucketsFor G out kss)
         @ [set_max (last (bucketsFor G out kss)) (hd c), bucketFor G out (hd c) None c]"
proof (induction G out kss rule: bucketsFor.induct)
  case (1 G out)
  then show ?case by simp
next
  case (2 G out c0)
  show ?case by (simp add: set_max_bucketFor)
next
  case (3 G out c0 c1 cs)
  then show ?case by (simp add: bucketsFor_Nil_iff)
qed

lemma aligned_drop:
  "aligned key S gr rm G index ks \<Longrightarrow>
   aligned key S gr rm G (index + length (concat (map G (take n ks)))) (drop n ks)"
proof (induction ks arbitrary: n index)
  case Nil
  then show ?case by simp
next
  case (Cons k ks)
  show ?case
  proof (cases n)
    case 0
    with Cons.prems show ?thesis by simp
  next
    case (Suc m)
    from Cons.IH [OF aligned_Cons(4) [OF Cons.prems], of m]
    show ?thesis by (simp add: Suc add.assoc)
  qed
qed

lemma aligned_rest: "aligned key S gr rm G index ks \<Longrightarrow> drop index S = concat (map G ks)"
  by (simp add: aligned_def)

lemma concat_take_drop: "concat (map G (take n ks)) @ concat (map G (drop n ks)) = concat (map G ks)"
  by (metis append_take_drop_id concat_append map_append)

lemma outer_closed:
  "0 < approx \<Longrightarrow> aligned key S gr rm G index ks \<Longrightarrow>
         outer key out S gr rm approx bc i index (bucketsFor G out kssR)
           = Inr (bucketsFor G out (kssR @ keyChunks approx bc i ks))"
proof (induction approx bc i ks arbitrary: index kssR rule: keyChunks.induct)
  case (1 approx bc i ks)
  show ?case
  proof (cases "of_nat i < bc \<and> ks \<noteq> []")
    case False
    then have "\<not> (of_nat i < bc \<and> index < length S)"
      using aligned_Nil [of key S gr rm G index] "1.prems"(2) by auto
    then have "outer key out S gr rm approx bc i index (bucketsFor G out kssR)
                 = Inr (bucketsFor G out kssR)"
      by (subst outer.simps) auto
    moreover have "keyChunks approx bc i ks = []"
      using False by (subst keyChunks.simps) simp
    ultimately show ?thesis by simp
  next
    case True
    then obtain k ks' where ks: "ks = k # ks'" by (cases ks) auto
    note pos = "1.prems"(1)
    let ?chunk = "if of_nat i = bc - 1 then ks else take approx ks"
    let ?its = "concat (map G (take approx ks))"
    let ?R = "bucketsFor G out kssR"
    have al: "aligned key S gr rm G index (k # ks')" using "1.prems"(2) ks by simp
    have lt: "index < length S" by (rule aligned_Cons(1) [OF al])
    have al': "aligned key S gr rm G (index + length ?its) (drop approx ks)"
      by (rule aligned_drop [OF "1.prems"(2)])
    have inn: "inner key S gr rm approx 0 ([], index, \<lparr>bmin = None, bmax = None\<rparr>, ?R)
           = Inr (?its, index + length ?its, \<lparr>bmin = Some k, bmax = None\<rparr>,
                  if ?R = [] then [] else butlast ?R @ [set_max (last ?R) k])"
      using inner_first [OF al pos] ks by simp
    have its: "(if of_nat i = bc - 1 then ?its @ drop (index + length ?its) S else ?its)
                 = concat (map G ?chunk)"
      by (simp add: aligned_rest [OF al'] concat_take_drop)
    have hdc: "hd ?chunk = k"
      using ks pos by (cases approx) auto
    have new: "(if ?R = [] then [] else butlast ?R @ [set_max (last ?R) k])
                 @ [\<lparr>bid = \<lparr>bmin = Some k, bmax = None\<rparr>, items_of = concat (map G ?chunk),
                      accumulated = out (concat (map G ?chunk))\<rparr>]
               = bucketsFor G out (kssR @ [?chunk])"
    proof (cases "kssR = []")
      case True
      then show ?thesis by (simp add: bucketFor_def hdc)
    next
      case False
      then show ?thesis
        by (simp only: bucketsFor_snoc [OF False] hdc bucketsFor_Nil_iff bucketFor_def) simp
    qed
    have "outer key out S gr rm approx bc i index ?R
            = outer key out S gr rm approx bc (Suc i) (index + length ?its)
                (bucketsFor G out (kssR @ [?chunk]))"
      by (subst outer.simps) (simp only: True lt inn its new Let_def sum.case prod.case simp_thms if_True)
    also have "\<dots> = Inr (bucketsFor G out ((kssR @ [?chunk]) @ keyChunks approx bc (Suc i) (drop approx ks)))"
      by (rule "1.IH" [OF True pos al'])
    also have "(kssR @ [?chunk]) @ keyChunks approx bc (Suc i) (drop approx ks)
                 = kssR @ keyChunks approx bc i ks"
      using True by (subst (2) keyChunks.simps) simp
    finally show ?thesis .
  qed
qed

section \<open>The stage in closed form\<close>

lemma approxBucketSize_pos: "0 < approxBucketSize len bc"
  by (simp add: approxBucketSize_def)

lemma aligned_start:
  "aligned key (sortedOf key coll) (groupedOf key coll) (filter (\<lambda>d. isNil (key d)) coll)
     (keyGroup key coll) 0 (keyClasses key coll)"
  unfolding aligned_def
proof (intro conjI ballI)
  show "drop 0 (sortedOf key coll) = concat (map (keyGroup key coll) (keyClasses key coll))"
    by (simp add: sortedOf_groups)
next
  fix k assume k: "k \<in> set (keyClasses key coll)"
  show "keyGroup key coll k \<noteq> []" by (rule keyClasses_group(1) [OF k])
  show "(case k of Num n \<Rightarrow> groupedOf key coll n | _ \<Rightarrow> Some (filter (\<lambda>d. isNil (key d)) coll))
          = Some (keyGroup key coll k)"
    by (rule keyClasses_group(2) [OF k])
  fix d assume "d \<in> set (keyGroup key coll k)"
  then show "keyClass key d = k" by (rule keyGroup_class)
qed

lemma transform_closed:
  "transform key out bc coll =
     Inr (closeLast
            (bucketsFor (keyGroup key coll) out
               (keyChunks (approxBucketSize (length coll) bc) bc 0 (keyClasses key coll)))
            (key (sortedOf key coll ! (length (sortedOf key coll) - 1))))"
proof -
  have "outer key out (sortedOf key coll) (groupedOf key coll) (filter (\<lambda>d. isNil (key d)) coll)
          (approxBucketSize (length coll) bc) bc 0 0 (bucketsFor (keyGroup key coll) out [])
        = Inr (bucketsFor (keyGroup key coll) out
                 ([] @ keyChunks (approxBucketSize (length coll) bc) bc 0 (keyClasses key coll)))"
    by (rule outer_closed [OF approxBucketSize_pos aligned_start])
  then show ?thesis
    by (simp add: transform_def sortBy_keyCallback closeLast_def Let_def)
qed

lemma bucketAuto_closed:
  assumes "buckets e = Fin bc" "0 < bc"
  shows "bucketAuto coll e =
     Inr (closeLast
            (bucketsFor (keyGroup (groupBy e) coll)
               (case outputAcc e of Some f \<Rightarrow> f | None \<Rightarrow> count_sum)
               (keyChunks (approxBucketSize (length coll) bc) bc 0 (keyClasses (groupBy e) coll)))
            (groupBy e (sortedOf (groupBy e) coll ! (length (sortedOf (groupBy e) coll) - 1))))"
  using assms by (simp add: bucketAuto_def transform_closed Let_def)

section \<open>Key chunks\<close>

lemma keyChunks_Nil: "keyChunks a bc i [] = []"
  by (subst keyChunks.simps) simp

lemma keyChunks_parts:
  "0 < a \<Longrightarrow> c \<in> set (keyChunks a bc i ks) \<Longrightarrow> c \<noteq> [] \<and> set c \<subseteq> set ks"
proof (induction a bc i ks rule: keyChunks.induct)
  case (1 a bc i ks)
  show ?case
  proof (cases "of_nat i < bc \<and> ks \<noteq> []")
    case False
    with "1.prems" show ?thesis by (subst (asm) keyChunks.simps) simp
  next
    case True
    from "1.prems"(2) True
    consider "c = (if of_nat i = bc - 1 then ks else take a ks)"
      | "c \<in> set (keyChunks a bc (Suc i) (drop a ks))"
      by (subst (asm) keyChunks.simps) auto
    then show ?thesis
    proof cases
      case 1
      with True "1.prems"(1) show ?thesis by (auto dest: in_set_takeD)
    next
      case 2
      from "1.IH" [OF True "1.prems"(1) 2] show ?thesis by (auto dest: in_set_dropD)
    qed
  qed
qed

lemma keyChunks_set: "set (concat (keyChunks a bc i ks)) \<subseteq> set ks"
proof (induction a bc i ks rule: keyChunks.induct)
  case (1 a bc i ks)
  show ?case
  proof (cases "of_nat i < bc \<and> ks \<noteq> []")
    case False
    then show ?thesis by (subst keyChunks.simps) auto
  next
    case True
    from "1.IH" [OF True] have "set (concat (keyChunks a bc (Suc i) (drop a ks))) \<subseteq> set ks"
      by (auto dest: in_set_dropD)
    with True show ?thesis
      by (subst keyChunks.simps) (auto dest: in_set_takeD)
  qed
qed

lemma keyChunks_last_turn:
  "of_nat i = bc - 1 \<Longrightarrow> keyChunks a bc (Suc i) ks = []"
  by (subst keyChunks.simps) simp

lemma keyChunks_distinct: "distinct ks \<Longrightarrow> distinct (concat (keyChunks a bc i ks))"
proof (induction a bc i ks rule: keyChunks.induct)
  case (1 a bc i ks)
  show ?case
  proof (cases "of_nat i < bc \<and> ks \<noteq> []")
    case False
    then show ?thesis by (subst keyChunks.simps) auto
  next
    case True
    show ?thesis
    proof (cases "of_nat i = bc - 1")
      case last: True
      with True "1.prems" show ?thesis
        by (subst keyChunks.simps) (simp add: keyChunks_last_turn)
    next
      case False
      have d: "distinct (take a ks @ drop a ks)" using "1.prems" by simp
      have sub: "set (concat (keyChunks a bc (Suc i) (drop a ks))) \<subseteq> set (drop a ks)"
        by (rule keyChunks_set)
      have rest: "distinct (concat (keyChunks a bc (Suc i) (drop a ks)))"
        using "1.IH" [OF True] "1.prems" by simp
      have "distinct (take a ks @ concat (keyChunks a bc (Suc i) (drop a ks)))"
        using d sub rest unfolding distinct_append by blast
      with True False show ?thesis
        by (subst keyChunks.simps) simp
    qed
  qed
qed

lemma keyChunks_nat: "keyChunks a (of_nat (i + n)) i ks = chunkRuns a n ks"
proof (induction n arbitrary: i ks)
  case 0
  show ?case by (subst keyChunks.simps) simp
next
  case (Suc n)
  have ih: "keyChunks a (of_nat (i + Suc n)) (Suc i) (drop a ks) = chunkRuns a n (drop a ks)"
    using Suc.IH [of "Suc i" "drop a ks"] by simp
  have lt: "rat_of_nat i < rat_of_nat (i + Suc n)"
    by (simp only: of_nat_less_iff)
  have eq: "(rat_of_nat i = rat_of_nat (i + Suc n) - 1) \<longleftrightarrow> n = 0"
  proof -
    have "(rat_of_nat i = rat_of_nat (i + Suc n) - 1) \<longleftrightarrow> rat_of_nat (Suc i) = rat_of_nat (i + Suc n)"
      by (simp add: algebra_simps)
    also have "\<dots> \<longleftrightarrow> Suc i = i + Suc n" by (simp only: of_nat_eq_iff)
    also have "\<dots> \<longleftrightarrow> n = 0" by auto
    finally show ?thesis .
  qed
  show ?case
  proof (cases "ks = []")
    case True
    then show ?thesis by (simp add: keyChunks_Nil)
  next
    case False
    have "keyChunks a (of_nat (i + Suc n)) i ks
            = (if n = 0 then ks else take a ks) # chunkRuns a n (drop a ks)"
      by (subst keyChunks.simps) (simp only: lt False eq ih simp_thms if_True)
    with False show ?thesis by (cases n) simp_all
  qed
qed

lemma chunkRuns_length: "length (chunkRuns a n xs) \<le> n"
  by (induction a n xs rule: chunkRuns.induct) auto

lemma chunkRuns_concat: "0 < n \<Longrightarrow> concat (chunkRuns a n xs) = xs"
proof (induction a n xs rule: chunkRuns.induct)
  case (1 a xs)
  then show ?case by simp
next
  case (2 a n xs)
  then show ?case by (cases "n = 0") auto
qed


section \<open>The emitted buckets\<close>

lemma bucketsFor_length: "length (bucketsFor G out kss) = length kss"
  by (induction G out kss rule: bucketsFor.induct) simp_all

lemma bucketsFor_items:
  "map items_of (bucketsFor G out kss) = map (\<lambda>c. concat (map G c)) kss"
  by (induction G out kss rule: bucketsFor.induct) (simp_all add: bucketFor_def)

lemma bucketsFor_accumulated:
  "b \<in> set (bucketsFor G out kss) \<Longrightarrow> accumulated b = out (items_of b)"
  by (induction G out kss rule: bucketsFor.induct) (auto simp: bucketFor_def)

lemma bucketsFor_min:
  "map (\<lambda>b. bmin (bid b)) (bucketsFor G out kss) = map (\<lambda>c. Some (hd c)) kss"
  by (induction G out kss rule: bucketsFor.induct) (simp_all add: bucketFor_def)

lemma bucketsFor_max:
  "Suc i < length kss \<Longrightarrow> bmax (bid (bucketsFor G out kss ! i)) = Some (hd (kss ! Suc i))"
proof (induction G out kss arbitrary: i rule: bucketsFor.induct)
  case (1 G out)
  then show ?case by simp
next
  case (2 G out c)
  then show ?case by simp
next
  case (3 G out c c' cs)
  show ?case
  proof (cases i)
    case 0
    then show ?thesis by (simp add: bucketFor_def)
  next
    case (Suc j)
    with "3.prems" have "Suc j < length (c' # cs)" by simp
    from "3.IH" [OF this] Suc show ?thesis by simp
  qed
qed

lemma closeLast_length: "length (closeLast R k) = length R"
  by (cases "R = []") (simp_all add: closeLast_def)

lemma closeLast_nth:
  "i < length R \<Longrightarrow> closeLast R k ! i = (if Suc i = length R then set_max (R ! i) k else R ! i)"
proof -
  assume i: "i < length R"
  then have ne: "R \<noteq> []" by auto
  show ?thesis
  proof (cases "Suc i = length R")
    case True
    then have "i = length (butlast R)" by simp
    then have "(butlast R @ [set_max (last R) k]) ! i = set_max (last R) k"
      by (simp only: nth_append_length)
    moreover have "last R = R ! i"
    proof -
      from True have "length R - 1 = i" by simp
      with last_conv_nth [OF ne] show ?thesis by simp
    qed
    ultimately show ?thesis using True ne by (simp add: closeLast_def)
  next
    case False
    with i have "i < length (butlast R)" by simp
    then have "(butlast R @ [set_max (last R) k]) ! i = R ! i"
      by (simp add: nth_append nth_butlast)
    with False ne show ?thesis by (simp add: closeLast_def)
  qed
qed

lemma closeLast_items: "map items_of (closeLast R k) = map items_of R"
proof (cases "R = []")
  case True
  then show ?thesis by (simp add: closeLast_def)
next
  case False
  have "map items_of (butlast R @ [set_max (last R) k]) = map items_of (butlast R @ [last R])"
    by (simp add: set_max_def)
  with False show ?thesis by (simp add: closeLast_def)
qed

lemma closeLast_min: "map (\<lambda>b. bmin (bid b)) (closeLast R k) = map (\<lambda>b. bmin (bid b)) R"
proof (cases "R = []")
  case True
  then show ?thesis by (simp add: closeLast_def)
next
  case False
  have "map (\<lambda>b. bmin (bid b)) (butlast R @ [set_max (last R) k])
          = map (\<lambda>b. bmin (bid b)) (butlast R @ [last R])"
    by (simp add: set_max_def)
  with False show ?thesis by (simp add: closeLast_def)
qed

lemma closeLast_accumulated:
  "\<forall>b\<in>set R. accumulated b = out (items_of b) \<Longrightarrow>
   b \<in> set (closeLast R k) \<Longrightarrow> accumulated b = out (items_of b)"
  by (cases "R = []") (auto simp: closeLast_def set_max_def dest: in_set_butlastD)

lemma closeLast_last: "R \<noteq> [] \<Longrightarrow> bmax (bid (last (closeLast R k))) = Some k"
  by (simp add: closeLast_def set_max_def)

lemma concat_groups: "concat (map (\<lambda>c. concat (map G c)) kss) = concat (map G (concat kss))"
  by (induction kss) simp_all

lemma mset_sortedOf: "mset (sortedOf key coll) = mset coll"
  by (simp add: sortedOf_def)

lemma set_sortedOf: "set (sortedOf key coll) = set coll"
  by (auto simp: sortedOf_def)

lemma keyGroup_subset: "set (keyGroup key coll k) \<subseteq> set coll"
  by (auto simp: keyGroup_def)

lemma keyClass_eq_iff:
  "keyClass key d = keyClass key d' \<longleftrightarrow> key d = key d' \<or> (isNil (key d) \<and> isNil (key d'))"
  by (cases "key d"; cases "key d'") (simp_all add: keyClass_def)

lemma distinct_concat_nth:
  "distinct (concat xss) \<Longrightarrow> i < length xss \<Longrightarrow> j < length xss \<Longrightarrow>
   x \<in> set (xss ! i) \<Longrightarrow> x \<in> set (xss ! j) \<Longrightarrow> i = j"
proof (induction xss arbitrary: i j)
  case Nil
  then show ?case by simp
next
  case (Cons xs xss)
  show ?case
  proof (cases i)
    case 0
    show ?thesis
    proof (cases j)
      case 0
      with \<open>i = 0\<close> show ?thesis by simp
    next
      case (Suc j')
      with Cons.prems \<open>i = 0\<close> have "x \<in> set xs" "x \<in> set (concat xss)" by auto
      with Cons.prems(1) show ?thesis by auto
    qed
  next
    case (Suc i')
    show ?thesis
    proof (cases j)
      case 0
      with Cons.prems Suc have "x \<in> set xs" "x \<in> set (concat xss)" by auto
      with Cons.prems(1) show ?thesis by auto
    next
      case (Suc j')
      with Cons.prems \<open>i = Suc i'\<close> Cons.IH [of i' j'] show ?thesis by simp
    qed
  qed
qed

lemma sorted_le_last: "sorted xs \<Longrightarrow> x \<in> set xs \<Longrightarrow> x \<le> last xs"
  by (induction xs) auto

lemma sortedOf_last_greatest:
  assumes "d' \<in> set coll"
  shows "keyLe (key d') (key (last (sortedOf key coll)))"
proof (cases "isNil (key d')")
  case True
  then show ?thesis by (cases "key d'") simp_all
next
  case False
  let ?f = "\<lambda>d. num_of (key d)"
  let ?ys = "filter (\<lambda>d. \<not> isNil (key d)) coll"
  let ?s = "sort_key ?f ?ys"
  from assms False have in_s: "d' \<in> set ?s" by simp
  have ne: "?s \<noteq> []"
  proof
    assume "?s = []"
    with in_s show False by (simp only: set_simps empty_iff)
  qed
  then have l: "last (sortedOf key coll) = last ?s" by (simp add: sortedOf_def)
  have "last ?s \<in> set ?s" using ne by (rule last_in_set)
  then have nn: "\<not> isNil (key (last ?s))" by simp
  have "sorted (map ?f ?s)" by (rule sorted_sort_key)
  moreover have "?f d' \<in> set (map ?f ?s)" using in_s by (simp only: set_map) (rule imageI)
  ultimately have "?f d' \<le> last (map ?f ?s)" by (rule sorted_le_last)
  then have "?f d' \<le> ?f (last ?s)" using ne by (simp add: last_map)
  with False nn show ?thesis
    unfolding l by (cases "key d'"; cases "key (last ?s)") simp_all
qed

lemma bucketAuto_shape:
  assumes "gt0 (buckets e)"
  obtains bc where "buckets e = Fin bc" "0 < bc"
    "bucketAuto coll e =
       Inr (closeLast
              (bucketsFor (keyGroup (groupBy e) coll)
                 (case outputAcc e of Some f \<Rightarrow> f | None \<Rightarrow> count_sum)
                 (keyChunks (approxBucketSize (length coll) bc) bc 0 (keyClasses (groupBy e) coll)))
              (groupBy e (sortedOf (groupBy e) coll ! (length (sortedOf (groupBy e) coll) - 1))))"
proof -
  from assms obtain bc where bc: "buckets e = Fin bc" "0 < bc"
    by (cases "buckets e") auto
  from bc bucketAuto_closed [OF bc] show ?thesis by (rule that)
qed

lemma closed_items_chunk:
  assumes "b \<in> set (closeLast (bucketsFor G out kss) k)"
  shows "\<exists>c\<in>set kss. items_of b = concat (map G c)"
proof -
  from assms have "items_of b \<in> set (map items_of (closeLast (bucketsFor G out kss) k))"
    by simp
  then have "items_of b \<in> set (map (\<lambda>c. concat (map G c)) kss)"
    by (simp only: closeLast_items bucketsFor_items)
  then show ?thesis by auto
qed

lemma closed_items_nth:
  assumes "i < length kss"
  shows "items_of (closeLast (bucketsFor G out kss) k ! i) = concat (map G (kss ! i))"
proof -
  have "items_of (closeLast (bucketsFor G out kss) k ! i)
          = map items_of (closeLast (bucketsFor G out kss) k) ! i"
    using assms by (simp add: closeLast_length bucketsFor_length)
  also have "\<dots> = concat (map G (kss ! i))"
    using assms by (simp only: closeLast_items bucketsFor_items) simp
  finally show ?thesis .
qed

lemma chunk_group_nonempty:
  assumes "c \<noteq> []" "set c \<subseteq> set (keyClasses key coll)"
  shows "concat (map (keyGroup key coll) c) \<noteq> []"
proof -
  from assms obtain k ks where c: "c = k # ks" by (cases c) auto
  with assms(2) have "k \<in> set (keyClasses key coll)" by simp
  then have "keyGroup key coll k \<noteq> []" by (rule keyClasses_group(1))
  with c show ?thesis by simp
qed

lemma closed_min_nth:
  assumes "i < length kss"
  shows "bmin (bid (closeLast (bucketsFor G out kss) k ! i)) = Some (hd (kss ! i))"
proof -
  have "bmin (bid (closeLast (bucketsFor G out kss) k ! i))
          = map (\<lambda>b. bmin (bid b)) (closeLast (bucketsFor G out kss) k) ! i"
    using assms by (simp add: closeLast_length bucketsFor_length)
  also have "\<dots> = Some (hd (kss ! i))"
    using assms by (simp only: closeLast_min bucketsFor_min) simp
  finally show ?thesis .
qed

lemma closed_max_nth:
  assumes "Suc i < length kss"
  shows "bmax (bid (closeLast (bucketsFor G out kss) k ! i)) = Some (hd (kss ! Suc i))"
proof -
  from assms have "i < length (bucketsFor G out kss)" "Suc i \<noteq> length (bucketsFor G out kss)"
    by (simp_all add: bucketsFor_length)
  then have "closeLast (bucketsFor G out kss) k ! i = bucketsFor G out kss ! i"
    by (simp add: closeLast_nth)
  then show ?thesis by (simp add: bucketsFor_max [OF assms])
qed

lemma closed_max_last:
  assumes "kss \<noteq> []"
  shows "bmax (bid (last (closeLast (bucketsFor G out kss) k))) = Some k"
  using assms by (simp add: closeLast_last bucketsFor_Nil_iff)

lemma keyClasses_Nil_iff: "keyClasses key coll = [] \<longleftrightarrow> coll = []"
proof
  assume "keyClasses key coll = []"
  then have "concat (map (keyGroup key coll) (keyClasses key coll)) = []" by simp
  then have "sortedOf key coll = []" by (simp only: sortedOf_groups)
  then have "mset coll = {#}" using mset_sortedOf [of key coll] by simp
  then show "coll = []" by simp
next
  assume "coll = []"
  then show "keyClasses key coll = []" by (simp add: keyClasses_def)
qed

lemma keyChunks_Nil_iff:
  "0 < bc \<Longrightarrow> keyChunks a bc 0 ks = [] \<longleftrightarrow> ks = []"
  by (subst keyChunks.simps) simp

lemma closed_item_class:
  assumes "i < length kss"
    and "d \<in> set (items_of (closeLast (bucketsFor (keyGroup key coll) out kss) k ! i))"
  shows "keyClass key d \<in> set (kss ! i)"
proof -
  from assms(2) have "d \<in> set (concat (map (keyGroup key coll) (kss ! i)))"
    by (simp only: closed_items_nth [OF assms(1)])
  then obtain k' where "k' \<in> set (kss ! i)" "d \<in> set (keyGroup key coll k')" by auto
  then show ?thesis by (auto dest: keyGroup_class)
qed

lemma closed_class_item:
  assumes "i < length kss" "keyClass key d \<in> set (kss ! i)" "d \<in> set coll"
  shows "d \<in> set (items_of (closeLast (bucketsFor (keyGroup key coll) out kss) k ! i))"
proof -
  from assms(3) have "d \<in> set (keyGroup key coll (keyClass key d))"
    by (simp add: keyGroup_def)
  with assms(2) have "d \<in> set (concat (map (keyGroup key coll) (kss ! i)))" by auto
  then show ?thesis by (simp only: closed_items_nth [OF assms(1)])
qed





section \<open>The sort stage keeps equal documents in order\<close>



lemma mset_insertDoc: "mset (insertDoc le d xs) = add_mset d (mset xs)"
  by (induction xs) simp_all

lemma mset_sort_stage: "mset (sort_stage le spec coll) = mset coll"
  by (induction coll) (simp_all add: sort_stage_def mset_insertDoc)




lemma name_sorted:
  "sort_stage strength1 nameSpec nameDocs = [(1, ''A''), (4, ''a''), (2, ''B''), (3, ''c'')]"
  by code_simp

lemma case_sorted:
  "sort_stage strength1 nameSpec caseDocs = [(1, ''A''), (2, ''a''), (3, ''B''), (4, ''b'')]"
  by code_simp

section \<open>Two runs of the stage\<close>

lemma six_buckets:
  "bucketAuto (idDocs 6) (idSpec 3) =
     Inr [\<lparr>bid = \<lparr>bmin = Some (Num 1), bmax = Some (Num 3)\<rparr>,
            items_of = [[(''_id'', Num 1)], [(''_id'', Num 2)]], accumulated = [(''count'', 2)]\<rparr>,
          \<lparr>bid = \<lparr>bmin = Some (Num 3), bmax = Some (Num 5)\<rparr>,
            items_of = [[(''_id'', Num 3)], [(''_id'', Num 4)]], accumulated = [(''count'', 2)]\<rparr>,
          \<lparr>bid = \<lparr>bmin = Some (Num 5), bmax = Some (Num 6)\<rparr>,
            items_of = [[(''_id'', Num 5)], [(''_id'', Num 6)]], accumulated = [(''count'', 2)]\<rparr>]"
  by code_simp

lemma nil_buckets:
  "bucketAuto nilDocs nilSpec =
     Inr [\<lparr>bid = \<lparr>bmin = Some Null, bmax = Some (Num 9)\<rparr>,
            items_of = [[(''_id'', Num 1), (''k'', Null)], [(''_id'', Num 2)],
                        [(''_id'', Num 3), (''k'', Num 7)]],
            accumulated = [(''count'', 3)]\<rparr>,
          \<lparr>bid = \<lparr>bmin = Some (Num 9), bmax = Some (Num 9)\<rparr>,
            items_of = [[(''_id'', Num 4), (''k'', Num 9)]],
            accumulated = [(''count'', 1)]\<rparr>]"
  by code_simp

section \<open>The claims\<close>


text \<open>
  C7. The pipeline \<open>[{$bucketAuto: {groupBy: "$_id", buckets: 3}}]\<close> over the six
  documents \<open>{_id: 1}\<close> to \<open>{_id: 6}\<close> gives exactly three buckets, with the \<open>_id\<close>
  values \<open>{min: 1, max: 3}\<close>, \<open>{min: 3, max: 5}\<close>, \<open>{min: 5, max: 6}\<close>, and the
  default \<open>count\<close> accumulators sum to 6.
\<close>

theorem bucketAuto_six_documents:
  "\<exists>bs. bucketAuto (idDocs 6) (idSpec 3) = Inr bs
     \<and> map bid bs = [\<lparr>bmin = Some (Num 1), bmax = Some (Num 3)\<rparr>,
                     \<lparr>bmin = Some (Num 3), bmax = Some (Num 5)\<rparr>,
                     \<lparr>bmin = Some (Num 5), bmax = Some (Num 6)\<rparr>]
     \<and> sum_list (map countOf bs) = 6"
  by (simp add: six_buckets countOf_def)

text \<open>
  C6. When the \<open>buckets\<close> field is not a positive number (\<open>NaN\<close>, as a missing field
  compares, zero or a negative number), the stage raises the assertion's error, whatever
  the collection: nothing is emitted.
\<close>

theorem bucketAuto_rejects:
  "buckets e = NaN \<or> (\<exists>r. buckets e = Fin r \<and> r \<le> 0) \<Longrightarrow> bucketAuto coll e = Inl AssertionError"
  by (auto simp: bucketAuto_def)

theorem bucketAuto_rejects_witness:
  "(buckets (idSpec 0) = NaN \<or> (\<exists>r. buckets (idSpec 0) = Fin r \<and> r \<le> 0))
     \<and> bucketAuto (idDocs 6) (idSpec 0) = Inl AssertionError"
  using bucketAuto_rejects [of "idSpec 0" "idDocs 6"] by (simp add: idSpec_def)

text \<open>
  C9. On the empty collection the stage, with a \<open>buckets\<close> field greater than 0, emits
  the empty sequence and raises no error.
\<close>

theorem bucketAuto_empty:
  "gt0 (buckets e) \<Longrightarrow> bucketAuto [] e = Inr []"
proof -
  assume "gt0 (buckets e)"
  then obtain bc where bc: "buckets e = Fin bc" "0 < bc"
    by (cases "buckets e") auto
  have "keyClasses (groupBy e) [] = []" by (simp add: keyClasses_def)
  then show ?thesis
    by (simp add: bucketAuto_closed [OF bc] keyChunks_Nil closeLast_def)
qed

theorem bucketAuto_empty_witness:
  "gt0 (buckets (idSpec 3)) \<and> bucketAuto [] (idSpec 3) = Inr []"
  using bucketAuto_empty [of "idSpec 3"] by (simp add: idSpec_def)

text \<open>
  C1. With \<open>buckets = N\<close>, \<open>N > 0\<close>, the stage emits at most \<open>N\<close> buckets, and the
  documents the buckets' accumulators ran over are, counted with multiplicity, exactly
  the documents of the input: every input document is in exactly one bucket, none is
  dropped and none is counted twice. The accumulated fields of a bucket are the output
  expression on its documents.
\<close>

theorem bucketAuto_partition:
  assumes "buckets e = Fin (of_nat N)" "0 < N"
  shows "\<exists>bs. bucketAuto coll e = Inr bs \<and> length bs \<le> N
           \<and> mset (concat (map items_of bs)) = mset coll
           \<and> (\<forall>b\<in>set bs. accumulated b
                  = (case outputAcc e of Some f \<Rightarrow> f | None \<Rightarrow> count_sum) (items_of b))"
proof -
  let ?G = "keyGroup (groupBy e) coll"
  let ?out = "case outputAcc e of Some f \<Rightarrow> f | None \<Rightarrow> count_sum"
  let ?a = "approxBucketSize (length coll) (of_nat N)"
  let ?ks = "keyClasses (groupBy e) coll"
  let ?k = "groupBy e (sortedOf (groupBy e) coll ! (length (sortedOf (groupBy e) coll) - 1))"
  have pos: "(0::rat) < of_nat N" using assms(2) by simp
  have chunks: "keyChunks ?a (of_nat N) 0 ?ks = chunkRuns ?a N ?ks"
    using keyChunks_nat [of ?a 0 N ?ks] by simp
  have res: "bucketAuto coll e = Inr (closeLast (bucketsFor ?G ?out (chunkRuns ?a N ?ks)) ?k)"
    (is "_ = Inr ?bs")
    using bucketAuto_closed [OF assms(1) pos, of coll] by (simp only: chunks)
  have len: "length ?bs \<le> N"
    by (simp add: closeLast_length bucketsFor_length chunkRuns_length)
  have "concat (map items_of ?bs) = concat (map ?G (concat (chunkRuns ?a N ?ks)))"
    by (simp only: closeLast_items bucketsFor_items concat_groups)
  also have "\<dots> = sortedOf (groupBy e) coll"
    by (simp only: chunkRuns_concat [OF assms(2)] sortedOf_groups)
  finally have "mset (concat (map items_of ?bs)) = mset coll"
    by (simp only: mset_sortedOf)
  moreover have "\<forall>b\<in>set ?bs. accumulated b = ?out (items_of b)"
    using closeLast_accumulated [of "bucketsFor ?G ?out (chunkRuns ?a N ?ks)" ?out _ ?k]
          bucketsFor_accumulated [of _ ?G ?out "chunkRuns ?a N ?ks"]
    by blast
  ultimately show ?thesis using res len by blast
qed

theorem bucketAuto_partition_witness:
  "buckets (idSpec 3) = Fin (of_nat 3) \<and> (0::nat) < 3 \<and>
   (\<exists>bs. bucketAuto (idDocs 7) (idSpec 3) = Inr bs \<and> length bs \<le> 3
      \<and> mset (concat (map items_of bs)) = mset (idDocs 7)
      \<and> (\<forall>b\<in>set bs. accumulated b
             = (case outputAcc (idSpec 3) of Some f \<Rightarrow> f | None \<Rightarrow> count_sum) (items_of b)))"
  using bucketAuto_partition [of "idSpec 3" 3 "idDocs 7"] by (simp add: idSpec_def)




text \<open>
  C3. Every emitted bucket has a \<open>min\<close> and a \<open>max\<close> of its own; the \<open>min\<close> of each bucket
  but the first is the \<open>max\<close> of the bucket before it; a non-empty input gives at least
  one bucket; and the \<open>max\<close> of the last bucket is the key of an input document that no
  input document's key exceeds (a nil key being below every number).
\<close>

theorem bucketAuto_boundaries:
  assumes "gt0 (buckets e)"
  shows "\<exists>bs. bucketAuto coll e = Inr bs
           \<and> (\<forall>b\<in>set bs. bmin (bid b) \<noteq> None \<and> bmax (bid b) \<noteq> None)
           \<and> (\<forall>i. Suc i < length bs \<longrightarrow> bmin (bid (bs ! Suc i)) = bmax (bid (bs ! i)))
           \<and> (coll \<noteq> [] \<longrightarrow> bs \<noteq> [])
           \<and> (bs \<noteq> [] \<longrightarrow>
                (\<exists>d\<in>set coll. bmax (bid (last bs)) = Some (groupBy e d)
                   \<and> (\<forall>d'\<in>set coll. keyLe (groupBy e d') (groupBy e d))))"
proof -
  let ?key = "groupBy e"
  let ?S = "sortedOf ?key coll"
  define k where "k = ?key (?S ! (length ?S - 1))"
  from assms obtain bc kss where bc: "buckets e = Fin bc" "0 < bc"
    and kss: "kss = keyChunks (approxBucketSize (length coll) bc) bc 0 (keyClasses ?key coll)"
    and res: "bucketAuto coll e =
       Inr (closeLast
              (bucketsFor (keyGroup ?key coll)
                 (case outputAcc e of Some f \<Rightarrow> f | None \<Rightarrow> count_sum) kss) k)"
    (is "_ = Inr ?bs")
    unfolding k_def by (auto elim: bucketAuto_shape [of e coll])
  have len: "length ?bs = length kss"
    by (simp add: closeLast_length bucketsFor_length)
  have chain: "bmin (bid (?bs ! Suc i)) = bmax (bid (?bs ! i))" if "Suc i < length ?bs" for i
    using that by (simp add: len closed_min_nth closed_max_nth)
  have last_max: "bmax (bid (last ?bs)) = Some k" if "?bs \<noteq> []"
  proof -
    from that len have "kss \<noteq> []" by auto
    then show ?thesis by (rule closed_max_last)
  qed
  have own: "bmin (bid b) \<noteq> None \<and> bmax (bid b) \<noteq> None" if "b \<in> set ?bs" for b
  proof -
    from that obtain i where i: "i < length ?bs" "b = ?bs ! i"
      by (auto simp: in_set_conv_nth)
    then have ne: "?bs \<noteq> []" by auto
    have mn: "bmin (bid b) \<noteq> None" using i by (simp add: len closed_min_nth)
    have "bmax (bid b) \<noteq> None"
    proof (cases "Suc i < length ?bs")
      case True
      then show ?thesis using i by (simp add: len closed_max_nth)
    next
      case False
      with i have "i = length ?bs - 1" by simp
      with i ne have "b = last ?bs" by (simp add: last_conv_nth)
      with last_max [OF ne] show ?thesis by simp
    qed
    with mn show ?thesis ..
  qed
  have greatest: "\<exists>d\<in>set coll. bmax (bid (last ?bs)) = Some (?key d)
                   \<and> (\<forall>d'\<in>set coll. keyLe (?key d') (?key d))" if "?bs \<noteq> []"
  proof -
    from that len have "kss \<noteq> []" by auto
    then have "keyClasses ?key coll \<noteq> []"
      unfolding kss using keyChunks_Nil [of "approxBucketSize (length coll) bc" bc 0] by auto
    then have "coll \<noteq> []" by (simp add: keyClasses_Nil_iff)
    then have "?S \<noteq> []" using set_sortedOf [of ?key coll] by auto
    then have l: "k = ?key (last ?S)" by (simp add: k_def last_conv_nth)
    have "last ?S \<in> set ?S" using \<open>?S \<noteq> []\<close> by (rule last_in_set)
    then have "last ?S \<in> set coll" by (simp only: set_sortedOf)
    moreover have "bmax (bid (last ?bs)) = Some (?key (last ?S))"
      using last_max [OF that] by (simp only: l)
    moreover have "\<forall>d'\<in>set coll. keyLe (?key d') (?key (last ?S))"
      by (auto intro: sortedOf_last_greatest)
    ultimately show ?thesis by blast
  qed
  have emitted: "?bs \<noteq> []" if "coll \<noteq> []"
  proof -
    from that have "keyClasses ?key coll \<noteq> []" by (simp add: keyClasses_Nil_iff)
    then have "kss \<noteq> []" unfolding kss by (simp add: keyChunks_Nil_iff [OF bc(2)])
    with len show ?thesis by auto
  qed
  from res own chain emitted greatest show ?thesis by blast
qed

theorem bucketAuto_boundaries_witness:
  "gt0 (buckets nilSpec) \<and> nilDocs \<noteq> [] \<and>
   (\<exists>bs. bucketAuto nilDocs nilSpec = Inr bs \<and> bs \<noteq> []
      \<and> (\<forall>b\<in>set bs. bmin (bid b) \<noteq> None \<and> bmax (bid b) \<noteq> None)
      \<and> (\<forall>i. Suc i < length bs \<longrightarrow> bmin (bid (bs ! Suc i)) = bmax (bid (bs ! i)))
      \<and> (\<exists>d\<in>set nilDocs. bmax (bid (last bs)) = Some (groupBy nilSpec d)
            \<and> (\<forall>d'\<in>set nilDocs. keyLe (groupBy nilSpec d') (groupBy nilSpec d))))"
proof -
  have g: "gt0 (buckets nilSpec)" by (simp add: nilSpec_def)
  have ne: "nilDocs \<noteq> []" by (simp add: nilDocs_def)
  from g ne bucketAuto_boundaries [OF g, of nilDocs] show ?thesis by blast
qed

text \<open>
  C4. Two documents with equal keys (two nil keys count as equal) are never in two
  different buckets, and a bucket that holds a document holds every input document with
  that key.
\<close>

theorem bucketAuto_equal_keys_together:
  assumes "gt0 (buckets e)"
  shows "\<exists>bs. bucketAuto coll e = Inr bs
           \<and> (\<forall>i<length bs. \<forall>j<length bs.
                \<forall>d\<in>set (items_of (bs ! i)). \<forall>d'\<in>set (items_of (bs ! j)).
                  (groupBy e d = groupBy e d' \<or> (isNil (groupBy e d) \<and> isNil (groupBy e d')))
                    \<longrightarrow> i = j)
           \<and> (\<forall>i<length bs. \<forall>d\<in>set (items_of (bs ! i)). \<forall>d'\<in>set coll.
                  (groupBy e d = groupBy e d' \<or> (isNil (groupBy e d) \<and> isNil (groupBy e d')))
                    \<longrightarrow> d' \<in> set (items_of (bs ! i)))"
proof -
  let ?key = "groupBy e"
  let ?S = "sortedOf ?key coll"
  define k where "k = ?key (?S ! (length ?S - 1))"
  from assms obtain bc kss where bc: "buckets e = Fin bc" "0 < bc"
    and kss: "kss = keyChunks (approxBucketSize (length coll) bc) bc 0 (keyClasses ?key coll)"
    and res: "bucketAuto coll e =
       Inr (closeLast
              (bucketsFor (keyGroup ?key coll)
                 (case outputAcc e of Some f \<Rightarrow> f | None \<Rightarrow> count_sum) kss) k)"
    (is "_ = Inr ?bs")
    unfolding k_def by (auto elim: bucketAuto_shape [of e coll])
  have len: "length ?bs = length kss"
    by (simp add: closeLast_length bucketsFor_length)
  have dist: "distinct (concat kss)"
    unfolding kss by (rule keyChunks_distinct) (rule distinct_keyClasses)
  have one: "i = j"
    if "i < length ?bs" "j < length ?bs" "d \<in> set (items_of (?bs ! i))"
       "d' \<in> set (items_of (?bs ! j))"
       "?key d = ?key d' \<or> (isNil (?key d) \<and> isNil (?key d'))" for i j d d'
  proof -
    from that(1,2) have ij: "i < length kss" "j < length kss" by (simp_all only: len)
    have "keyClass ?key d \<in> set (kss ! i)" by (rule closed_item_class [OF ij(1) that(3)])
    moreover have "keyClass ?key d' \<in> set (kss ! j)" by (rule closed_item_class [OF ij(2) that(4)])
    moreover have "keyClass ?key d = keyClass ?key d'" using that(5) by (simp only: keyClass_eq_iff)
    ultimately show ?thesis using distinct_concat_nth [OF dist ij] by simp
  qed
  have all: "d' \<in> set (items_of (?bs ! i))"
    if "i < length ?bs" "d \<in> set (items_of (?bs ! i))" "d' \<in> set coll"
       "?key d = ?key d' \<or> (isNil (?key d) \<and> isNil (?key d'))" for i d d'
  proof -
    from that(1) have i: "i < length kss" by (simp only: len)
    have "keyClass ?key d \<in> set (kss ! i)" by (rule closed_item_class [OF i that(2)])
    moreover have "keyClass ?key d = keyClass ?key d'" using that(4) by (simp only: keyClass_eq_iff)
    ultimately have "keyClass ?key d' \<in> set (kss ! i)" by simp
    then show ?thesis using that(3) by (rule closed_class_item [OF i])
  qed
  from res one all show ?thesis by blast
qed

theorem bucketAuto_equal_keys_together_witness:
  "gt0 (buckets nilSpec) \<and>
   (\<exists>bs. bucketAuto nilDocs nilSpec = Inr bs
      \<and> (\<forall>i<length bs. \<forall>j<length bs.
           \<forall>d\<in>set (items_of (bs ! i)). \<forall>d'\<in>set (items_of (bs ! j)).
             (groupBy nilSpec d = groupBy nilSpec d' \<or> (isNil (groupBy nilSpec d) \<and> isNil (groupBy nilSpec d')))
               \<longrightarrow> i = j)
      \<and> (\<forall>i<length bs. \<forall>d\<in>set (items_of (bs ! i)). \<forall>d'\<in>set nilDocs.
             (groupBy nilSpec d = groupBy nilSpec d' \<or> (isNil (groupBy nilSpec d) \<and> isNil (groupBy nilSpec d')))
               \<longrightarrow> d' \<in> set (items_of (bs ! i))))"
  using bucketAuto_equal_keys_together [of nilSpec nilDocs] by (simp add: nilSpec_def)

text \<open>
  C5, as the code has it. When some document has a nil key, all documents with a nil key
  are together in the first bucket, whose \<open>min\<close> is \<open>null\<close>, and no later bucket holds
  one. The first bucket is not theirs alone: it goes on to take the next keys, as in the
  run on \<open>nilDocs\<close>, where it also holds the document with key 7.
\<close>

theorem bucketAuto_nil_first:
  assumes "gt0 (buckets e)" "\<exists>d\<in>set coll. isNil (groupBy e d)"
  shows "\<exists>b bs. bucketAuto coll e = Inr (b # bs) \<and> bmin (bid b) = Some Null
           \<and> (\<forall>d\<in>set coll. isNil (groupBy e d) \<longrightarrow> d \<in> set (items_of b))
           \<and> (\<forall>b'\<in>set bs. \<forall>d\<in>set (items_of b'). \<not> isNil (groupBy e d))"
proof -
  let ?key = "groupBy e"
  let ?S = "sortedOf ?key coll"
  define k where "k = ?key (?S ! (length ?S - 1))"
  from assms(1) obtain bc kss where bc: "buckets e = Fin bc" "0 < bc"
    and kss: "kss = keyChunks (approxBucketSize (length coll) bc) bc 0 (keyClasses ?key coll)"
    and res: "bucketAuto coll e =
       Inr (closeLast
              (bucketsFor (keyGroup ?key coll)
                 (case outputAcc e of Some f \<Rightarrow> f | None \<Rightarrow> count_sum) kss) k)"
    (is "_ = Inr ?bs")
    unfolding k_def by (auto elim: bucketAuto_shape [of e coll])
  have len: "length ?bs = length kss"
    by (simp add: closeLast_length bucketsFor_length)
  have dist: "distinct (concat kss)"
    unfolding kss by (rule keyChunks_distinct) (rule distinct_keyClasses)
  from assms(2) have "filter (\<lambda>d. isNil (?key d)) coll \<noteq> []"
    by (auto simp: filter_empty_conv)
  then obtain ks where ks: "keyClasses ?key coll = Null # ks"
    by (simp add: keyClasses_def)
  have "of_nat 0 < bc" using bc(2) by simp
  then obtain c kss' where c: "kss = c # kss'" "hd c = Null" "Null \<in> set c"
    unfolding kss ks using approxBucketSize_pos [of "length coll" bc]
    by (subst (asm) keyChunks.simps) (cases "approxBucketSize (length coll) bc", auto)
  then have "?bs \<noteq> []" using len by auto
  then obtain b bs where bs: "?bs = b # bs" by (cases ?bs) auto
  have b0: "b = ?bs ! 0" by (simp only: bs nth_Cons_0)
  have z: "0 < length kss" using c(1) by simp
  have null0: "Null \<in> set (kss ! 0)" using c by simp
  have mn: "bmin (bid b) = Some Null"
    unfolding b0 using closed_min_nth [OF z] c by simp
  have nils: "d \<in> set (items_of b)" if "d \<in> set coll" "isNil (?key d)" for d
  proof -
    from that(2) have "keyClass ?key d = Null" by (simp only: keyClass_Null)
    with null0 have "keyClass ?key d \<in> set (kss ! 0)" by simp
    then show ?thesis unfolding b0 using that(1) by (rule closed_class_item [OF z])
  qed
  have others: "\<not> isNil (?key d)" if "b' \<in> set bs" "d \<in> set (items_of b')" for b' d
  proof
    assume "isNil (?key d)"
    then have cl: "keyClass ?key d = Null" by (simp only: keyClass_Null)
    from that(1) obtain j where j: "j < length bs" "b' = bs ! j"
      by (auto simp: in_set_conv_nth)
    then have b': "b' = ?bs ! Suc j" by (simp only: bs nth_Cons_Suc)
    from j(1) have sj: "Suc j < length kss" using len bs by simp
    have "keyClass ?key d \<in> set (kss ! Suc j)"
      using that(2) unfolding b' by (rule closed_item_class [OF sj])
    with cl have "Null \<in> set (kss ! Suc j)" by simp
    from distinct_concat_nth [OF dist sj z this null0] show False by simp
  qed
  from res bs mn nils others show ?thesis by (simp only:) blast
qed

theorem bucketAuto_nil_first_witness:
  "gt0 (buckets nilSpec) \<and> (\<exists>d\<in>set nilDocs. isNil (groupBy nilSpec d)) \<and>
   (\<exists>b bs. bucketAuto nilDocs nilSpec = Inr (b # bs) \<and> bmin (bid b) = Some Null
      \<and> (\<forall>d\<in>set nilDocs. isNil (groupBy nilSpec d) \<longrightarrow> d \<in> set (items_of b))
      \<and> (\<forall>b'\<in>set bs. \<forall>d\<in>set (items_of b'). \<not> isNil (groupBy nilSpec d)))"
proof -
  have h: "\<exists>d\<in>set nilDocs. isNil (groupBy nilSpec d)"
    by (simp add: nilDocs_def nilSpec_def fieldRef_def)
  have g: "gt0 (buckets nilSpec)" by (simp add: nilSpec_def)
  from g h bucketAuto_nil_first [OF g h] show ?thesis by blast
qed

theorem nil_bucket_not_own_counterexample:
  "map_sum id (map (map (fieldRef ''k'') \<circ> items_of)) (bucketAuto nilDocs nilSpec)
     = Inr [[Null, Undefined, Num 7], [Num 9]]"
  by (simp add: nil_buckets fieldRef_def)

text \<open>
  C10. Every emitted bucket holds at least one document, and only documents of the
  input, whatever the positive \<open>buckets\<close> field (also one above the collection's size).
\<close>

theorem bucketAuto_no_empty_bucket:
  "gt0 (buckets e) \<Longrightarrow>
   \<exists>bs. bucketAuto coll e = Inr bs \<and> (\<forall>b\<in>set bs. items_of b \<noteq> [] \<and> set (items_of b) \<subseteq> set coll)"
proof -
  assume "gt0 (buckets e)"
  then obtain bc where bc: "buckets e = Fin bc" "0 < bc"
    and res: "bucketAuto coll e =
       Inr (closeLast
              (bucketsFor (keyGroup (groupBy e) coll)
                 (case outputAcc e of Some f \<Rightarrow> f | None \<Rightarrow> count_sum)
                 (keyChunks (approxBucketSize (length coll) bc) bc 0 (keyClasses (groupBy e) coll)))
              (groupBy e (sortedOf (groupBy e) coll ! (length (sortedOf (groupBy e) coll) - 1))))"
    (is "_ = Inr ?bs")
    by (rule bucketAuto_shape)
  have "items_of b \<noteq> [] \<and> set (items_of b) \<subseteq> set coll" if "b \<in> set ?bs" for b
  proof -
    from closed_items_chunk [OF that] obtain c
      where c: "c \<in> set (keyChunks (approxBucketSize (length coll) bc) bc 0 (keyClasses (groupBy e) coll))"
        and its: "items_of b = concat (map (keyGroup (groupBy e) coll) c)"
      by blast
    from keyChunks_parts [OF approxBucketSize_pos c]
    have "c \<noteq> []" "set c \<subseteq> set (keyClasses (groupBy e) coll)" by simp_all
    then have "items_of b \<noteq> []" unfolding its by (rule chunk_group_nonempty)
    moreover have "set (items_of b) \<subseteq> set coll"
      unfolding its using keyGroup_subset [of "groupBy e" coll] by auto
    ultimately show ?thesis ..
  qed
  with res show ?thesis by blast
qed

theorem bucketAuto_no_empty_bucket_witness:
  "gt0 (buckets (idSpec 9)) \<and>
   (\<exists>bs. bucketAuto (idDocs 2) (idSpec 9) = Inr bs
      \<and> (\<forall>b\<in>set bs. items_of b \<noteq> [] \<and> set (items_of b) \<subseteq> set (idDocs 2)))"
  using bucketAuto_no_empty_bucket [of "idSpec 9" "idDocs 2"] by (simp add: idSpec_def)



end
